theory Spec2Isabelle
  imports Complex_Main
begin

section \<open>Data model\<close>

text \<open>
  The development embeds \<^verbatim>\<open>src/model/vqmodel.py\<close>. Tensor entries are exact reals:
  the rounding of the 32-bit floats of the source is not modelled, so the statements below
  are about the store, the indices, the shapes and the one-hot structure of the encodings,
  none of which depends on rounding, and not about the values a float computation returns.
  A codebook is the weight matrix of one \<^verbatim>\<open>nn.Embedding\<close>: its rows are the codewords.
  Exceptions of the source are values of \<open>error\<close>, named after their cause.
\<close>

datatype error =
    InvalidIndex      \<comment> \<open>a list or ModuleList index out of range\<close>
  | ShapeMismatch     \<comment> \<open>permute, view, cat or matmul on tensors of unfit shape\<close>
  | EmptyReduction    \<comment> \<open>argmin over a dimension of size zero\<close>
  | EmptyConcat       \<comment> \<open>torch.concat of an empty list of tensors\<close>
  | KMeansFailure     \<comment> \<open>any exception raised by the clustering library\<close>

record matrix =
  ncols :: nat
  rows :: "real list list"

definition wf_matrix :: "matrix \<Rightarrow> bool" where
  "wf_matrix m = list_all (\<lambda>r. length r = ncols m) (rows m)"

definition has_shape :: "nat \<Rightarrow> nat \<Rightarrow> matrix \<Rightarrow> bool" where
  "has_shape M D m = (length (rows m) = M \<and> ncols m = D \<and> wf_matrix m)"

text \<open>
  The random-normal initialisation of \<^verbatim>\<open>nn.Embedding\<close> (\<^verbatim>\<open>normal_()\<close>, mean 0 and standard
  deviation 1) is a parameter: \<open>rnd k i j\<close> is the value it draws for row \<open>i\<close>, column
  \<open>j\<close> of the \<open>k\<close>-th codebook created for a store. A draw is a real number, so it is
  finite. Every statement holds for every outcome of the draws.
\<close>

type_synonym rng = "nat \<Rightarrow> nat \<Rightarrow> nat \<Rightarrow> real"

definition new_embedding :: "rng \<Rightarrow> nat \<Rightarrow> nat \<Rightarrow> nat \<Rightarrow> matrix" where
  "new_embedding rnd k M D =
     \<lparr>ncols = D, rows = map (\<lambda>i. map (\<lambda>j. rnd k i j) [0..<D]) [0..<M]\<rparr>"

record extVQ =
  embedding_dim :: nat
  num_embeddings :: nat
  commitment_cost :: real
  codebooks :: "matrix list"

text \<open>\<^verbatim>\<open>extVQ.__init__\<close>: the shared codebook and one backup codebook.\<close>

definition extVQ_init :: "rng \<Rightarrow> nat \<Rightarrow> nat \<Rightarrow> real \<Rightarrow> extVQ" where
  "extVQ_init rnd M D cc =
     \<lparr>embedding_dim = D, num_embeddings = M, commitment_cost = cc,
      codebooks = [new_embedding rnd 0 M D] @ [new_embedding rnd 1 M D]\<rparr>"

text \<open>
  Of \<^verbatim>\<open>UEFL\<close> the fields the codebook operations use: \<open>uefl_dim\<close> is \<^verbatim>\<open>self.dim\<close>
  after segmentation, the codeword length handed to the quantizer.
\<close>

record UEFL =
  uefl_num_embeddings :: nat
  uefl_dim :: nat
  discretizer :: extVQ

definition UEFL_init :: "rng \<Rightarrow> nat \<Rightarrow> nat \<Rightarrow> UEFL" where
  "UEFL_init rnd num_codes d =
     \<lparr>uefl_num_embeddings = num_codes, uefl_dim = d,
      discretizer = extVQ_init rnd num_codes d 0.25\<rparr>"

section \<open>Codebook store operations\<close>

text \<open>Python indexing of a list or ModuleList: indices from \<open>-len\<close> up to \<open>len - 1\<close>.\<close>

definition py_pos :: "nat \<Rightarrow> int \<Rightarrow> error + nat" where
  "py_pos n i =
     (if i < - int n \<or> int n \<le> i then Inl InvalidIndex
      else if i < 0 then Inr (nat (i + int n))
      else Inr (nat i))"

definition py_index :: "'a list \<Rightarrow> int \<Rightarrow> error + 'a" where
  "py_index xs i = (case py_pos (length xs) i of Inl e \<Rightarrow> Inl e | Inr p \<Rightarrow> Inr (xs ! p))"

text \<open>\<^verbatim>\<open>UEFL.get_codebooks\<close>.\<close>

definition get_codebooks :: "UEFL \<Rightarrow> matrix list" where
  "get_codebooks u = map (\<lambda>i. codebooks (discretizer u) ! i) [0..<length (codebooks (discretizer u))]"

text \<open>
  \<^verbatim>\<open>UEFL.load_codebooks\<close>: the loop runs over \<^verbatim>\<open>range(len(self.discretizer.codebooks))\<close>;
  step \<open>i\<close> reads \<^verbatim>\<open>codebooks[i]\<close> of the supplied list, which raises when the list is
  too short, and then overwrites the weights of codebook \<open>i\<close>. The store reached so far is
  returned with the outcome, since an exception does not undo the earlier assignments.
\<close>

fun load_loop :: "nat list \<Rightarrow> matrix list \<Rightarrow> matrix list \<Rightarrow> matrix list \<times> (error + unit)" where
  "load_loop [] supplied cbs = (cbs, Inr ())"
| "load_loop (i # is) supplied cbs =
     (if i < length supplied then load_loop is supplied (cbs[i := supplied ! i])
      else (cbs, Inl InvalidIndex))"

definition load_codebooks :: "UEFL \<Rightarrow> matrix list \<Rightarrow> UEFL \<times> (error + unit)" where
  "load_codebooks u supplied =
     (case load_loop [0..<length (codebooks (discretizer u))] supplied (codebooks (discretizer u)) of
        (cbs, r) \<Rightarrow> (u\<lparr>discretizer := (discretizer u)\<lparr>codebooks := cbs\<rparr>\<rparr>, r))"



definition store_size :: "UEFL \<Rightarrow> nat" where
  "store_size u = length (codebooks (discretizer u))"

section \<open>Tensors and gradient tracking\<close>

text \<open>
  A tensor is its shape and its entries in row-major (contiguous) order. The entries of the
  feature tensor are tracked scalars: the value (\<open>primal\<close>) and the derivative along an
  arbitrary direction of the input features (\<open>tangent\<close>), which is how \<^verbatim>\<open>detach()\<close>
  becomes visible. A tensor that autograd treats as not depending on the features has
  tangent zero.
\<close>

record 'a tensor =
  shape :: "nat list"
  els :: "'a list"

record tracked =
  primal :: real
  tangent :: real

definition untracked :: "real \<Rightarrow> tracked" where
  "untracked v = \<lparr>primal = v, tangent = 0\<rparr>"

definition detach :: "tracked \<Rightarrow> tracked" where
  "detach t = t\<lparr>tangent := 0\<rparr>"

definition t_add :: "tracked \<Rightarrow> tracked \<Rightarrow> tracked" where
  "t_add a b = \<lparr>primal = primal a + primal b, tangent = tangent a + tangent b\<rparr>"

definition t_sub :: "tracked \<Rightarrow> tracked \<Rightarrow> tracked" where
  "t_sub a b = \<lparr>primal = primal a - primal b, tangent = tangent a - tangent b\<rparr>"

text \<open>The entries \<open>f a b c d\<close> of a four-dimensional tensor laid out contiguously.\<close>

definition tab4 :: "nat \<Rightarrow> nat \<Rightarrow> nat \<Rightarrow> nat \<Rightarrow> (nat \<Rightarrow> nat \<Rightarrow> nat \<Rightarrow> nat \<Rightarrow> 'a) \<Rightarrow> 'a list" where
  "tab4 n1 n2 n3 n4 f =
     concat (map (\<lambda>a. concat (map (\<lambda>b. concat (map (\<lambda>c. map (\<lambda>d. f a b c d) [0..<n4])
       [0..<n3])) [0..<n2])) [0..<n1])"

text \<open>\<^verbatim>\<open>permute(0, 2, 3, 1).contiguous()\<close> on the entries of a \<open>B \<times> C \<times> H \<times> W\<close> tensor.\<close>

definition permute_0231 :: "nat \<Rightarrow> nat \<Rightarrow> nat \<Rightarrow> nat \<Rightarrow> 'a list \<Rightarrow> 'a list" where
  "permute_0231 B C H W xs = tab4 B H W C (\<lambda>b h w c. xs ! (((b * C + c) * H + h) * W + w))"

text \<open>\<^verbatim>\<open>permute(0, 3, 1, 2).contiguous()\<close> on the entries of a \<open>B \<times> H \<times> W \<times> C\<close> tensor.\<close>

definition permute_0312 :: "nat \<Rightarrow> nat \<Rightarrow> nat \<Rightarrow> nat \<Rightarrow> 'a list \<Rightarrow> 'a list" where
  "permute_0312 B H W C ys = tab4 B C H W (\<lambda>b c h w. ys ! (((b * H + h) * W + w) * C + c))"

text \<open>
  \<^verbatim>\<open>view(-1, D)\<close> (and \<^verbatim>\<open>reshape(-1, D)\<close>) of contiguous entries: rows of \<open>D\<close> entries; it
  raises when \<open>D\<close> is zero or does not divide the number of entries.
\<close>

definition view_rows :: "nat \<Rightarrow> 'a list \<Rightarrow> error + 'a list list" where
  "view_rows D xs =
     (if D = 0 \<or> length xs mod D \<noteq> 0 then Inl ShapeMismatch
      else Inr (map (\<lambda>n. take D (drop (n * D) xs)) [0..<length xs div D]))"

section \<open>Nearest-code assignment\<close>

definition sum_sq :: "real list \<Rightarrow> real" where
  "sum_sq r = sum_list (map (\<lambda>v. v ^ 2) r)"

definition dot :: "real list \<Rightarrow> real list \<Rightarrow> real" where
  "dot x c = sum_list (map2 (\<lambda>a b. a * b) x c)"

text \<open>The distance matrix; the product with \<^verbatim>\<open>codes.t()\<close> needs \<open>D\<close> columns in \<open>codes\<close>.\<close>

definition calc_distances :: "nat \<Rightarrow> real list list \<Rightarrow> matrix \<Rightarrow> error + real list list" where
  "calc_distances D flat_input codes =
     (if ncols codes \<noteq> D then Inl ShapeMismatch
      else Inr (map (\<lambda>x. map (\<lambda>c. sum_sq x + sum_sq c - 2 * dot x c) (rows codes)) flat_input))"

text \<open>\<^verbatim>\<open>torch.argmin\<close> along a row: the index of the first minimal value.\<close>

fun argmin_from :: "real \<Rightarrow> nat \<Rightarrow> nat \<Rightarrow> real list \<Rightarrow> nat" where
  "argmin_from best bi i [] = bi"
| "argmin_from best bi i (d # ds) =
     (if d < best then argmin_from d i (Suc i) ds else argmin_from best bi (Suc i) ds)"

fun argmin_row :: "real list \<Rightarrow> nat" where
  "argmin_row (d # ds) = argmin_from d 0 1 ds"

text \<open>\<^verbatim>\<open>torch.argmin(distances, dim=1)\<close> raises when the reduced dimension has size zero.\<close>

definition argmin_dim1 :: "nat \<Rightarrow> real list list \<Rightarrow> error + nat list" where
  "argmin_dim1 M distances =
     (if M = 0 then Inl EmptyReduction else Inr (map argmin_row distances))"

text \<open>\<^verbatim>\<open>torch.zeros(N, M)\<close> followed by \<^verbatim>\<open>scatter_(1, encoding_indices, 1)\<close>.\<close>

definition scatter_ones :: "nat \<Rightarrow> nat list \<Rightarrow> real list list" where
  "scatter_ones M encoding_indices = map (\<lambda>i. (replicate M 0)[i := 1]) encoding_indices"

text \<open>Lines 178 to 187 of the source: distances, argmin, one-hot encodings.\<close>

definition assign_codes :: "nat \<Rightarrow> real list list \<Rightarrow> matrix \<Rightarrow> error + real list list" where
  "assign_codes D flat_input codes =
     (case calc_distances D flat_input codes of
        Inl e \<Rightarrow> Inl e
      | Inr distances \<Rightarrow>
          (case argmin_dim1 (length (rows codes)) distances of
             Inl e \<Rightarrow> Inl e
           | Inr encoding_indices \<Rightarrow> Inr (scatter_ones (length (rows codes)) encoding_indices)))"

definition matmul :: "real list list \<Rightarrow> matrix \<Rightarrow> real list list" where
  "matmul A B = map (\<lambda>a. map (\<lambda>j. sum_list (map2 (\<lambda>v r. v * r ! j) a (rows B))) [0..<ncols B]) A"

section \<open>Losses, perplexity, straight-through output\<close>

text \<open>
  A mean over zero entries is NaN in the source; it is \<open>None\<close> here.
\<close>

definition mse_loss :: "real list \<Rightarrow> real list \<Rightarrow> real option" where
  "mse_loss a b =
     (if a = [] then None
      else Some (sum_list (map2 (\<lambda>p q. (p - q) ^ 2) a b) / real (length a)))"

definition total_loss :: "real option \<Rightarrow> real \<Rightarrow> real option \<Rightarrow> real option" where
  "total_loss q cc e = (case q of None \<Rightarrow> None | Some qv \<Rightarrow>
     (case e of None \<Rightarrow> None | Some ev \<Rightarrow> Some (qv + cc * ev)))"

definition mean_dim0 :: "nat \<Rightarrow> real list list \<Rightarrow> real list option" where
  "mean_dim0 M enc =
     (if enc = [] then None
      else Some (map (\<lambda>j. sum_list (map (\<lambda>r. r ! j) enc) / real (length enc)) [0..<M]))"

definition perplexity_of :: "real list \<Rightarrow> real" where
  "perplexity_of avg_probs = exp (- sum_list (map (\<lambda>p. p * ln (p + 1 / 10 ^ 10)) avg_probs))"

text \<open>\<^verbatim>\<open>inputs + (quantized - inputs).detach()\<close>, entry by entry.\<close>

definition straight_through :: "tracked \<Rightarrow> tracked \<Rightarrow> tracked" where
  "straight_through x q = t_add x (detach (t_sub q x))"

section \<open>The extensible quantizer\<close>

text \<open>\<^verbatim>\<open>extVQ.forward\<close>, lines 169 to 175: the accessible codewords of a silo.\<close>

definition cat0 :: "matrix \<Rightarrow> matrix \<Rightarrow> error + matrix" where
  "cat0 a b =
     (if ncols a = ncols b then Inr \<lparr>ncols = ncols a, rows = rows a @ rows b\<rparr>
      else Inl ShapeMismatch)"

definition accessible_codes :: "matrix list \<Rightarrow> int \<Rightarrow> error + matrix" where
  "accessible_codes cbs idx =
     (if idx = 0 then py_index cbs 0
      else (case py_index cbs 0 of
              Inl e \<Rightarrow> Inl e
            | Inr shared \<Rightarrow>
                (case py_index cbs idx of
                   Inl e \<Rightarrow> Inl e
                 | Inr extra \<Rightarrow> cat0 shared extra)))"

record fwd_out =
  quantized :: "tracked tensor"
  loss :: "real option"
  perplexity :: "real option"

text \<open>
  Lines 177 to 202: \<open>x\<close> holds the features in \<open>B \<times> H \<times> W \<times> C\<close> layout, \<open>flat_input\<close>
  their values as rows. \<open>quantized_raw\<close> is the product of the encodings with the codes.
\<close>

definition quantized_raw :: "real list list \<Rightarrow> matrix \<Rightarrow> real list" where
  "quantized_raw encodings codes = concat (matmul encodings codes)"

definition quantize ::
  "nat \<Rightarrow> real \<Rightarrow> nat \<Rightarrow> nat \<Rightarrow> nat \<Rightarrow> nat \<Rightarrow> tracked list \<Rightarrow> real list list \<Rightarrow> matrix
     \<Rightarrow> error + fwd_out" where
  "quantize D cc B H W C x flat_input codes =
     (case assign_codes D flat_input codes of
        Inl e \<Rightarrow> Inl e
      | Inr encodings \<Rightarrow>
          (let q = quantized_raw encodings codes;
               e_latent_loss = mse_loss q (map primal x);
               q_latent_loss = mse_loss q (map primal x);
               st = map2 straight_through x (map untracked q)
           in Inr \<lparr>quantized = \<lparr>shape = [B, C, H, W], els = permute_0312 B H W C st\<rparr>,
                   loss = total_loss q_latent_loss cc e_latent_loss,
                   perplexity = map_option perplexity_of
                                  (mean_dim0 (length (rows codes)) encodings)\<rparr>))"

text \<open>
  \<^verbatim>\<open>extVQ.forward\<close>. The store is returned with the outcome: when the extend flag is set,
  the codebook appended at line 167 stays in the store whatever happens afterwards.
\<close>

definition append_codebook :: "rng \<Rightarrow> extVQ \<Rightarrow> extVQ" where
  "append_codebook rnd st =
     st\<lparr>codebooks := codebooks st @
          [new_embedding rnd (length (codebooks st)) (num_embeddings st) (embedding_dim st)]\<rparr>"

definition forward ::
  "rng \<Rightarrow> extVQ \<Rightarrow> tracked tensor \<Rightarrow> int \<Rightarrow> bool \<Rightarrow> extVQ \<times> (error + fwd_out)" where
  "forward rnd st inputs idx ext =
     (case shape inputs of
        [B, C, H, W] \<Rightarrow>
          (let x = permute_0231 B C H W (els inputs) in
           case view_rows (embedding_dim st) (map primal x) of
             Inl e \<Rightarrow> (st, Inl e)
           | Inr flat_input \<Rightarrow>
               (let st' = (if ext then append_codebook rnd st else st) in
                case accessible_codes (codebooks st') idx of
                  Inl e \<Rightarrow> (st', Inl e)
                | Inr codes \<Rightarrow>
                    (st', quantize (embedding_dim st') (commitment_cost st') B H W C
                            x flat_input codes)))
      | _ \<Rightarrow> (st, Inl ShapeMismatch))"

section \<open>K-means initialisation of a codebook\<close>

text \<open>
  \<^verbatim>\<open>torch.concat(feas, dim=0)\<close>: the list must not be empty; tensors of shape \<open>(0,)\<close> are
  skipped; the other tensors must agree in every dimension but the first. When every
  tensor is skipped the result has shape \<open>(0,)\<close>.
\<close>

definition concat_dim0 :: "'a tensor list \<Rightarrow> error + 'a tensor" where
  "concat_dim0 ts =
     (if ts = [] then Inl EmptyConcat
      else (case filter (\<lambda>t. shape t \<noteq> [0]) ts of
              [] \<Rightarrow> Inr \<lparr>shape = [0], els = []\<rparr>
            | t # rest \<Rightarrow>
                if shape t \<noteq> [] \<and>
                   list_all (\<lambda>s. shape s \<noteq> [] \<and> tl (shape s) = tl (shape t)) rest
                then Inr \<lparr>shape = sum_list (map (\<lambda>s. hd (shape s)) (t # rest)) # tl (shape t),
                          els = concat (map els (t # rest))\<rparr>
                else Inl ShapeMismatch))"

text \<open>
  \<^verbatim>\<open>UEFL.init_codebooks\<close>. The encoder and the clustering library are parameters:
  \<open>encoder\<close> maps an input batch to its feature tensor, \<open>kmeans k rows\<close> is the outcome of
  \<^verbatim>\<open>KMeans(n_clusters=k, random_state=0, n_init="auto").fit(rows)\<close>, either an exception or
  the matrix \<^verbatim>\<open>cluster_centers_\<close>. The right-hand side of line 255 is evaluated before the
  target codebook is looked up.
\<close>

definition init_codebooks ::
  "('x \<Rightarrow> real tensor) \<Rightarrow> (nat \<Rightarrow> real list list \<Rightarrow> error + matrix) \<Rightarrow> UEFL
     \<Rightarrow> ('x \<times> 'y) list \<Rightarrow> int \<Rightarrow> UEFL \<times> (error + unit)" where
  "init_codebooks encoder kmeans u dsloader idx =
     (case concat_dim0 (map (\<lambda>(xtr, ytr). encoder xtr) dsloader) of
        Inl e \<Rightarrow> (u, Inl e)
      | Inr feas \<Rightarrow>
          (case shape feas of
             [B, C, H, W] \<Rightarrow>
               (case view_rows (uefl_dim u) (permute_0231 B C H W (els feas)) of
                  Inl e \<Rightarrow> (u, Inl e)
                | Inr feas_rows \<Rightarrow>
                    (case kmeans (uefl_num_embeddings u) feas_rows of
                       Inl e \<Rightarrow> (u, Inl e)
                     | Inr centers \<Rightarrow>
                         (case py_pos (length (codebooks (discretizer u))) idx of
                            Inl e \<Rightarrow> (u, Inl e)
                          | Inr p \<Rightarrow>
                              (u\<lparr>discretizer := (discretizer u)\<lparr>codebooks :=
                                    (codebooks (discretizer u))[p := centers]\<rparr>\<rparr>, Inr ()))))
           | _ \<Rightarrow> (u, Inl ShapeMismatch)))"

text \<open>
  Notions for the statements about \<^verbatim>\<open>init_codebooks\<close>. A feature tensor of one batch has
  shape \<open>b \<times> C \<times> H \<times> W\<close> and as many entries. \<open>channel_last_entries\<close> lists the
  features of all batches, batch after batch, each in \<open>b \<times> H \<times> W \<times> C\<close> layout.
\<close>

definition batch_of :: "nat \<Rightarrow> nat \<Rightarrow> nat \<Rightarrow> 'a tensor \<Rightarrow> bool" where
  "batch_of C H W t =
     (shape t = [hd (shape t), C, H, W] \<and> length (els t) = hd (shape t) * C * H * W)"

definition channel_last_entries :: "nat \<Rightarrow> nat \<Rightarrow> nat \<Rightarrow> 'a tensor list \<Rightarrow> 'a list" where
  "channel_last_entries C H W ts =
     concat (map (\<lambda>t. permute_0231 (hd (shape t)) C H W (els t)) ts)"

text \<open>
  What is relied on of \<^verbatim>\<open>sklearn.cluster.KMeans\<close>: on rows of \<open>D\<close> columns, fitting
  \<open>k\<close> clusters raises when \<open>k\<close> is zero or exceeds the number of rows, and centroids that
  are returned form a matrix of \<open>k\<close> rows and \<open>D\<close> columns.
\<close>

definition kmeans_contract :: "nat \<Rightarrow> (nat \<Rightarrow> real list list \<Rightarrow> error + matrix) \<Rightarrow> bool" where
  "kmeans_contract D kmeans =
     (\<forall>k feas_rows. list_all (\<lambda>r. length r = D) feas_rows \<longrightarrow>
        (k = 0 \<or> length feas_rows < k \<longrightarrow> isl (kmeans k feas_rows)) \<and>
        (\<forall>centers. kmeans k feas_rows = Inr centers \<longrightarrow> has_shape k D centers))"

section \<open>Concrete inputs\<close>

text \<open>Small stores and matrices on which the statements below are evaluated.\<close>

definition demo_rnd :: rng where
  "demo_rnd k i j = real k"

definition demo_uefl :: UEFL where
  "demo_uefl = UEFL_init demo_rnd 1 1"

definition demo_matrix :: "real \<Rightarrow> matrix" where
  "demo_matrix v = \<lparr>ncols = 1, rows = [[v]]\<rparr>"

definition demo_store :: extVQ where
  "demo_store = extVQ_init demo_rnd 1 1 (1 / 4)"

definition demo_store3 :: extVQ where
  "demo_store3 = append_codebook demo_rnd demo_store"

definition demo_input :: "tracked tensor" where
  "demo_input = \<lparr>shape = [1, 1, 1, 2],
                 els = [\<lparr>primal = 9 / 10, tangent = 3\<rparr>, \<lparr>primal = 1 / 5, tangent = 7\<rparr>]\<rparr>"

definition demo_uefl2 :: UEFL where
  "demo_uefl2 = UEFL_init demo_rnd 1 2"

definition demo_uefl5 :: UEFL where
  "demo_uefl5 = UEFL_init demo_rnd 5 2"

definition demo_features :: "real \<Rightarrow> real tensor" where
  "demo_features v =
     (if v = 0 then \<lparr>shape = [0], els = []\<rparr>
      else \<lparr>shape = [1, 2, 1, 2], els = [v, v + 1, v + 2, v + 3]\<rparr>)"

definition demo_batches :: "(real \<times> nat) list" where
  "demo_batches = [(4, 0), (0, 1), (6, 2)]"

text \<open>
  A stand-in for the clustering library: the first \<open>k - 1\<close> rows are clusters of their own
  and the remaining rows form the last cluster; every centroid is the mean of its cluster.
  For one cluster this is the centroid k-means returns, the mean of all rows.
\<close>

definition column_means :: "real list list \<Rightarrow> real list" where
  "column_means feas_rows =
     map (\<lambda>j. sum_list (map (\<lambda>r. r ! j) feas_rows) / real (length feas_rows))
       [0..<length (hd feas_rows)]"

definition demo_kmeans :: "nat \<Rightarrow> real list list \<Rightarrow> error + matrix" where
  "demo_kmeans k feas_rows =
     (if k = 0 \<or> length feas_rows < k then Inl KMeansFailure
      else Inr \<lparr>ncols = length (hd feas_rows),
                rows = take (k - 1) feas_rows @ [column_means (drop (k - 1) feas_rows)]\<rparr>)"

section \<open>Properties of the store operations\<close>

subsection \<open>Loading codebooks\<close>

lemma load_loop_prefix:
  "\<forall>i\<in>set is. i < length supplied \<Longrightarrow>
   load_loop (is @ js) supplied cbs = load_loop js supplied (fold (\<lambda>i c. c[i := supplied ! i]) is cbs)"
  by (induction "is" arbitrary: cbs) auto

lemma fold_update_upt:
  "n \<le> length cbs \<Longrightarrow> n \<le> length supplied \<Longrightarrow>
   fold (\<lambda>i c. c[i := supplied ! i]) [0..<n] cbs = take n supplied @ drop n cbs"
proof (induction n)
  case 0
  then show ?case by simp
next
  case (Suc n)
  then have "fold (\<lambda>i c. c[i := supplied ! i]) [0..<Suc n] cbs
      = (take n supplied @ drop n cbs)[n := supplied ! n]"
    by simp
  also have "\<dots> = take n supplied @ (drop n cbs)[0 := supplied ! n]"
    using Suc.prems by (simp add: list_update_append)
  also have "drop n cbs = cbs ! n # drop (Suc n) cbs"
    using Suc.prems by (simp add: Cons_nth_drop_Suc)
  also have "take n supplied @ (cbs ! n # drop (Suc n) cbs)[0 := supplied ! n]
      = take (Suc n) supplied @ drop (Suc n) cbs"
    using Suc.prems by (simp add: take_Suc_conv_app_nth)
  finally show ?case .
qed

lemma load_loop_all:
  assumes "length cbs \<le> length supplied"
  shows "load_loop [0..<length cbs] supplied cbs = (take (length cbs) supplied, Inr ())"
proof -
  have "load_loop ([0..<length cbs] @ []) supplied cbs
      = load_loop [] supplied (fold (\<lambda>i c. c[i := supplied ! i]) [0..<length cbs] cbs)"
    using assms by (intro load_loop_prefix) auto
  then show ?thesis using assms by (simp add: fold_update_upt)
qed

lemma load_loop_short:
  assumes "length supplied < length cbs"
  shows "load_loop [0..<length cbs] supplied cbs
           = (supplied @ drop (length supplied) cbs, Inl InvalidIndex)"
proof -
  have split: "[0..<length cbs] = [0..<length supplied] @ (length supplied # [Suc (length supplied)..<length cbs])"
    using assms by (metis less_imp_le_nat upt_add_eq_append upt_conv_Cons le0 add_0 le_add_diff_inverse)
  have "load_loop [0..<length cbs] supplied cbs
      = load_loop (length supplied # [Suc (length supplied)..<length cbs]) supplied
          (fold (\<lambda>i c. c[i := supplied ! i]) [0..<length supplied] cbs)"
    unfolding split by (intro load_loop_prefix) auto
  then show ?thesis using assms by (simp add: fold_update_upt)
qed

text \<open>
  Claim C3, as amended. \<^verbatim>\<open>load_codebooks\<close> has no length check. With a list as long as the
  store it succeeds and every codebook holds the supplied matrix of the same index. With a
  longer list it succeeds too and uses the first matrices, one per codebook. With a shorter
  list it fails with an index error after it has overwritten the codebooks below the
  list's length; the codebooks from that index on keep their weights.
\<close>

theorem load_codebooks_outcome:
  "(length supplied = store_size u \<longrightarrow>
      load_codebooks u supplied =
        (u\<lparr>discretizer := (discretizer u)\<lparr>codebooks := supplied\<rparr>\<rparr>, Inr ()))
   \<and> (store_size u < length supplied \<longrightarrow>
      load_codebooks u supplied =
        (u\<lparr>discretizer := (discretizer u)\<lparr>codebooks := take (store_size u) supplied\<rparr>\<rparr>, Inr ()))
   \<and> (length supplied < store_size u \<longrightarrow>
      load_codebooks u supplied =
        (u\<lparr>discretizer := (discretizer u)\<lparr>codebooks :=
             supplied @ drop (length supplied) (codebooks (discretizer u))\<rparr>\<rparr>, Inl InvalidIndex))"
  by (simp add: load_codebooks_def store_size_def load_loop_all load_loop_short)

text \<open>The three cases on a store of two codebooks.\<close>

theorem load_codebooks_outcome_witness:
  "load_codebooks demo_uefl [demo_matrix 5, demo_matrix 7] =
     (demo_uefl\<lparr>discretizer := (discretizer demo_uefl)\<lparr>codebooks := [demo_matrix 5, demo_matrix 7]\<rparr>\<rparr>, Inr ())
   \<and> load_codebooks demo_uefl [demo_matrix 5, demo_matrix 7, demo_matrix 9] =
     (demo_uefl\<lparr>discretizer := (discretizer demo_uefl)\<lparr>codebooks := [demo_matrix 5, demo_matrix 7]\<rparr>\<rparr>, Inr ())
   \<and> load_codebooks demo_uefl [demo_matrix 5] =
     (demo_uefl\<lparr>discretizer := (discretizer demo_uefl)\<lparr>codebooks := [demo_matrix 5, new_embedding demo_rnd 1 1 1]\<rparr>\<rparr>, Inl InvalidIndex)"
  using load_codebooks_outcome [of "[demo_matrix 5, demo_matrix 7]" demo_uefl]
        load_codebooks_outcome [of "[demo_matrix 5, demo_matrix 7, demo_matrix 9]" demo_uefl]
        load_codebooks_outcome [of "[demo_matrix 5]" demo_uefl]
  by (simp add: store_size_def demo_uefl_def UEFL_init_def extVQ_init_def)

text \<open>
  Claim C3 as stated fails: a list of three matrices is accepted by a store of two
  codebooks, and a list of one matrix changes the store before the call fails.
\<close>

theorem load_codebooks_mismatch_counterexample:
  "snd (load_codebooks demo_uefl [demo_matrix 5, demo_matrix 7, demo_matrix 9]) = Inr ()
   \<and> fst (load_codebooks demo_uefl [demo_matrix 5]) \<noteq> demo_uefl
   \<and> snd (load_codebooks demo_uefl [demo_matrix 5]) = Inl InvalidIndex"
  by (simp add: load_codebooks_def demo_uefl_def UEFL_init_def extVQ_init_def
        new_embedding_def demo_matrix_def demo_rnd_def upt_rec)

subsection \<open>Extension of the store\<close>

lemma has_shape_new_embedding: "has_shape M D (new_embedding rnd k M D)"
  by (simp add: has_shape_def new_embedding_def wf_matrix_def list_all_iff)














section \<open>Properties of the tensor layout\<close>

lemma length_concat_upt:
  "(\<And>i. i < m \<Longrightarrow> length (f i) = n) \<Longrightarrow> length (concat (map f [0..<m])) = m * n"
  by (induction m) simp_all

lemma nth_concat_upt:
  assumes "i < m" "j < n" "\<And>i. i < m \<Longrightarrow> length (f i) = n"
  shows "concat (map f [0..<m]) ! (i * n + j) = f i ! j"
  using assms
proof (induction m)
  case 0
  then show ?case by simp
next
  case (Suc m)
  have len: "length (concat (map f [0..<m])) = m * n"
    using Suc.prems(3) by (simp add: length_concat_upt)
  show ?case
  proof (cases "i < m")
    case True
    then have "i * n + j < m * n"
      using Suc.prems(2) by (metis Suc_leI add.commute add_less_cancel_left less_le_trans mult_Suc mult_le_mono1)
    then show ?thesis using Suc True len by (simp add: nth_append)
  next
    case False
    then have "i = m" using Suc.prems(1) by simp
    then show ?thesis using len by (simp add: nth_append)
  qed
qed

lemma length_tab4: "length (tab4 n1 n2 n3 n4 f) = n1 * n2 * n3 * n4"
  unfolding tab4_def
  by (simp add: length_concat_upt [where n = "n2 * n3 * n4"] length_concat_upt [where n = "n3 * n4"]
        length_concat_upt [where n = n4])

lemma nth_tab4:
  assumes "a < n1" "b < n2" "c < n3" "d < n4"
  shows "tab4 n1 n2 n3 n4 f ! (((a * n2 + b) * n3 + c) * n4 + d) = f a b c d"
proof -
  let ?T2 = "\<lambda>a b. concat (map (\<lambda>c. map (\<lambda>d. f a b c d) [0..<n4]) [0..<n3])"
  let ?T3 = "\<lambda>a. concat (map (\<lambda>b. ?T2 a b) [0..<n2])"
  have l2: "length (?T2 a b) = n3 * n4" for a b
    by (simp add: length_concat_upt [where n = n4])
  have l3: "length (?T3 a) = n2 * (n3 * n4)" for a
    by (rule length_concat_upt) (simp add: l2)
  have i1: "c * n4 + d < n3 * n4"
    using assms(3,4) by (metis Suc_leI add.commute add_less_cancel_left less_le_trans mult_Suc mult_le_mono1)
  have i2: "b * (n3 * n4) + (c * n4 + d) < n2 * (n3 * n4)"
    using assms(2) i1 by (metis Suc_leI add.commute add_less_cancel_left less_le_trans mult_Suc mult_le_mono1)
  have idx: "((a * n2 + b) * n3 + c) * n4 + d = a * (n2 * (n3 * n4)) + (b * (n3 * n4) + (c * n4 + d))"
    by (simp add: algebra_simps)
  have "tab4 n1 n2 n3 n4 f ! (a * (n2 * (n3 * n4)) + (b * (n3 * n4) + (c * n4 + d)))
      = ?T3 a ! (b * (n3 * n4) + (c * n4 + d))"
    unfolding tab4_def using assms(1) i2 l3 by (intro nth_concat_upt) auto
  also have "\<dots> = ?T2 a b ! (c * n4 + d)"
    using assms(2) i1 l2 by (intro nth_concat_upt) auto
  also have "\<dots> = map (\<lambda>d. f a b c d) [0..<n4] ! d"
    using assms(3,4) by (intro nth_concat_upt) auto
  also have "\<dots> = f a b c d" using assms(4) by simp
  finally show ?thesis unfolding idx .
qed

lemma index4_bound:
  fixes a b c d :: nat
  assumes "a < n1" "b < n2" "c < n3" "d < n4"
  shows "((a * n2 + b) * n3 + c) * n4 + d < n1 * n2 * n3 * n4"
proof -
  have s: "x < p \<Longrightarrow> y < q \<Longrightarrow> x * q + y < p * q" for x y p q :: nat
    by (metis Suc_leI add.commute add_less_cancel_left less_le_trans mult_Suc mult_le_mono1)
  have "a * n2 + b < n1 * n2" using assms by (intro s)
  then have "(a * n2 + b) * n3 + c < n1 * n2 * n3" using assms by (intro s)
  then show ?thesis using assms by (intro s)
qed

lemma tab4_cong:
  assumes "\<And>a b c d. a < n1 \<Longrightarrow> b < n2 \<Longrightarrow> c < n3 \<Longrightarrow> d < n4 \<Longrightarrow> f a b c d = g a b c d"
  shows "tab4 n1 n2 n3 n4 f = tab4 n1 n2 n3 n4 g"
  unfolding tab4_def using assms by (auto intro!: arg_cong [where f = concat] map_cong)

lemma map_tab4: "map h (tab4 n1 n2 n3 n4 f) = tab4 n1 n2 n3 n4 (\<lambda>a b c d. h (f a b c d))"
  unfolding tab4_def by (simp add: map_concat comp_def)

lemma index4_decode:
  fixes k :: nat
  assumes "k < n1 * n2 * n3 * n4"
  shows "\<exists>a b c d. a < n1 \<and> b < n2 \<and> c < n3 \<and> d < n4 \<and> k = ((a * n2 + b) * n3 + c) * n4 + d"
proof -
  have pos: "0 < n4" "0 < n3" "0 < n2" using assms by (auto intro: Nat.gr0I)
  define d where "d = k mod n4"
  define k1 where "k1 = k div n4"
  define c where "c = k1 mod n3"
  define k2 where "k2 = k1 div n3"
  define b where "b = k2 mod n2"
  define a where "a = k2 div n2"
  have "k1 < n1 * n2 * n3" unfolding k1_def using assms pos by (simp add: less_mult_imp_div_less)
  then have "k2 < n1 * n2" unfolding k2_def using pos by (simp add: less_mult_imp_div_less)
  then have "a < n1" unfolding a_def using pos by (simp add: less_mult_imp_div_less)
  moreover have "b < n2" "c < n3" "d < n4" unfolding b_def c_def d_def using pos by simp_all
  moreover have "k = ((a * n2 + b) * n3 + c) * n4 + d"
    unfolding a_def b_def c_def d_def k2_def k1_def by simp
  ultimately show ?thesis by blast
qed

lemma tab4_of_nth:
  assumes "length xs = n1 * n2 * n3 * n4"
  shows "tab4 n1 n2 n3 n4 (\<lambda>a b c d. xs ! (((a * n2 + b) * n3 + c) * n4 + d)) = xs"
proof (rule nth_equalityI)
  show "length (tab4 n1 n2 n3 n4 (\<lambda>a b c d. xs ! (((a * n2 + b) * n3 + c) * n4 + d))) = length xs"
    using assms by (simp add: length_tab4)
next
  fix k
  assume "k < length (tab4 n1 n2 n3 n4 (\<lambda>a b c d. xs ! (((a * n2 + b) * n3 + c) * n4 + d)))"
  then have "k < n1 * n2 * n3 * n4" by (simp add: length_tab4)
  then obtain a b c d where
    "a < n1" "b < n2" "c < n3" "d < n4" and k: "k = ((a * n2 + b) * n3 + c) * n4 + d"
    using index4_decode by blast
  then show "tab4 n1 n2 n3 n4 (\<lambda>a b c d. xs ! (((a * n2 + b) * n3 + c) * n4 + d)) ! k = xs ! k"
    unfolding k by (simp add: nth_tab4)
qed

lemma permute_round_trip:
  assumes "length xs = B * C * H * W"
  shows "permute_0312 B H W C (permute_0231 B C H W xs) = xs"
proof -
  have "permute_0312 B H W C (permute_0231 B C H W xs)
      = tab4 B C H W (\<lambda>b c h w. xs ! (((b * C + c) * H + h) * W + w))"
    unfolding permute_0312_def permute_0231_def
    by (rule tab4_cong) (simp add: nth_tab4)
  then show ?thesis using assms by (simp add: tab4_of_nth)
qed

lemma upt_shift: "[n..<n + m] = map (\<lambda>a. n + a) [0..<m]"
  by (induction m) simp_all

lemma tab4_append:
  "tab4 (n1 + m1) n2 n3 n4 f = tab4 n1 n2 n3 n4 f @ tab4 m1 n2 n3 n4 (\<lambda>a. f (n1 + a))"
proof -
  have "[0..<n1 + m1] = [0..<n1] @ [n1..<n1 + m1]"
    using upt_add_eq_append [of 0 n1 m1] by simp
  also have "[n1..<n1 + m1] = map (\<lambda>a. n1 + a) [0..<m1]"
    by (rule upt_shift)
  finally show ?thesis by (simp add: tab4_def comp_def)
qed

lemma permute_0231_append:
  assumes "length xs = B1 * C * H * W"
  shows "permute_0231 (B1 + B2) C H W (xs @ ys)
           = permute_0231 B1 C H W xs @ permute_0231 B2 C H W ys"
proof -
  have first: "tab4 B1 H W C (\<lambda>b h w c. (xs @ ys) ! (((b * C + c) * H + h) * W + w))
             = tab4 B1 H W C (\<lambda>b h w c. xs ! (((b * C + c) * H + h) * W + w))"
  proof (rule tab4_cong)
    fix b h w c
    assume "b < B1" "h < H" "w < W" "c < C"
    then have "((b * C + c) * H + h) * W + w < length xs"
      unfolding assms by (intro index4_bound)
    then show "(xs @ ys) ! (((b * C + c) * H + h) * W + w) = xs ! (((b * C + c) * H + h) * W + w)"
      by (simp add: nth_append)
  qed
  have second: "tab4 B2 H W C (\<lambda>b h w c. (xs @ ys) ! ((((B1 + b) * C + c) * H + h) * W + w))
             = tab4 B2 H W C (\<lambda>b h w c. ys ! (((b * C + c) * H + h) * W + w))"
  proof (rule tab4_cong)
    fix b h w c
    have "(((B1 + b) * C + c) * H + h) * W + w = length xs + (((b * C + c) * H + h) * W + w)"
      unfolding assms by (simp add: algebra_simps)
    then show "(xs @ ys) ! ((((B1 + b) * C + c) * H + h) * W + w)
             = ys ! (((b * C + c) * H + h) * W + w)"
      by (simp add: nth_append)
  qed
  show ?thesis
    unfolding permute_0231_def tab4_append first second ..
qed

section \<open>Properties of the forward pass\<close>

lemmas demo_defs = demo_store_def demo_input_def demo_rnd_def extVQ_init_def new_embedding_def

lemmas fwd_defs = forward_def permute_0231_def permute_0312_def tab4_def view_rows_def
  append_codebook_def accessible_codes_def py_index_def py_pos_def cat0_def quantize_def
  assign_codes_def calc_distances_def argmin_dim1_def scatter_ones_def quantized_raw_def
  matmul_def sum_sq_def dot_def

lemma py_index_outside:
  "i < - int (length xs) \<or> int (length xs) \<le> i \<Longrightarrow> py_index xs i = Inl InvalidIndex"
  by (auto simp: py_index_def py_pos_def)

lemma py_index_inside:
  "0 \<le> i \<Longrightarrow> i < int (length xs) \<Longrightarrow> py_index xs i = Inr (xs ! nat i)"
  by (simp add: py_index_def py_pos_def)

lemma py_index_negative:
  "- int (length xs) \<le> i \<Longrightarrow> i < 0 \<Longrightarrow> py_index xs i = Inr (xs ! nat (i + int (length xs)))"
  by (simp add: py_index_def py_pos_def)

lemma py_index_Inr_iff:
  "(\<exists>v. py_index xs i = Inr v) \<longleftrightarrow> - int (length xs) \<le> i \<and> i < int (length xs)"
  by (auto simp: py_index_def py_pos_def)

lemma py_index_error: "py_index xs i = Inl e \<Longrightarrow> e = InvalidIndex"
  by (auto simp: py_index_def py_pos_def split: if_splits)

lemma accessible_codes_outside:
  "i < - int (length cbs) \<or> int (length cbs) \<le> i \<Longrightarrow> accessible_codes cbs i = Inl InvalidIndex"
  by (cases "cbs = []") (auto simp: accessible_codes_def py_index_outside py_index_inside)

lemma cat0_not_invalid: "cat0 a b \<noteq> Inl InvalidIndex"
  by (simp add: cat0_def)

lemma accessible_codes_inside:
  "- int (length cbs) \<le> i \<Longrightarrow> i < int (length cbs) \<Longrightarrow> accessible_codes cbs i \<noteq> Inl InvalidIndex"
proof -
  assume r: "- int (length cbs) \<le> i" "i < int (length cbs)"
  then have "cbs \<noteq> []" by auto
  then have z: "py_index cbs 0 = Inr (cbs ! 0)"
    using py_index_inside [of 0 cbs] by simp
  show ?thesis
  proof (cases "i < 0")
    case True
    then show ?thesis
      using r z by (simp add: accessible_codes_def py_index_negative cat0_not_invalid)
  next
    case False
    then show ?thesis
      using r z by (simp add: accessible_codes_def py_index_inside cat0_not_invalid)
  qed
qed

lemma assign_codes_not_invalid: "assign_codes D flat codes \<noteq> Inl InvalidIndex"
  by (simp add: assign_codes_def calc_distances_def argmin_dim1_def)

lemma quantize_not_invalid: "quantize D cc B H W C x flat codes \<noteq> Inl InvalidIndex"
  using assign_codes_not_invalid [of D flat codes]
  by (auto simp: quantize_def Let_def split: sum.splits)

lemma forward_shaped:
  assumes "shape inputs = [B, C, H, W]"
    and "view_rows (embedding_dim st) (map primal (permute_0231 B C H W (els inputs))) = Inr flat"
  shows "forward rnd st inputs idx ext =
     (let st' = (if ext then append_codebook rnd st else st) in
      (st', case accessible_codes (codebooks st') idx of
              Inl e \<Rightarrow> Inl e
            | Inr codes \<Rightarrow> quantize (embedding_dim st') (commitment_cost st') B H W C
                 (permute_0231 B C H W (els inputs)) flat codes))"
  using assms by (simp add: forward_def Let_def split: sum.splits)

lemma forward_success_shaped:
  assumes "snd (forward rnd st inputs idx ext) = Inr out"
  shows "\<exists>B C H W flat. shape inputs = [B, C, H, W] \<and>
     view_rows (embedding_dim st) (map primal (permute_0231 B C H W (els inputs))) = Inr flat"
  using assms by (auto simp: forward_def Let_def split: list.splits sum.splits)

lemma append_codebook_fields:
  "embedding_dim (append_codebook rnd st) = embedding_dim st"
  "num_embeddings (append_codebook rnd st) = num_embeddings st"
  "commitment_cost (append_codebook rnd st) = commitment_cost st"
  "length (codebooks (append_codebook rnd st)) = Suc (length (codebooks st))"
  by (simp_all add: append_codebook_def)

text \<open>
  Claim C10. A forward pass with the extend flag false returns the store it was given:
  every codebook and the length of the store are unchanged, for every feature tensor and
  every index. With the flag true the only change is the one codebook appended at line 167:
  the store is either unchanged (the features were rejected before the append) or extended
  by that codebook, it is the extended store whenever the pass succeeds, and the outcome is
  that of a pass without the flag on the extended store, so the append precedes the
  selection of the codewords.
\<close>

theorem forward_store_frame:
  "fst (forward rnd st inputs idx False) = st
   \<and> (fst (forward rnd st inputs idx True) = st
        \<or> fst (forward rnd st inputs idx True) = append_codebook rnd st)
   \<and> (\<forall>out. snd (forward rnd st inputs idx True) = Inr out \<longrightarrow>
         fst (forward rnd st inputs idx True) = append_codebook rnd st)
   \<and> snd (forward rnd st inputs idx True) = snd (forward rnd (append_codebook rnd st) inputs idx False)"
proof -
  have a: "fst (forward rnd st inputs idx False) = st"
    by (auto simp: forward_def Let_def split: list.splits sum.splits)
  have b: "fst (forward rnd st inputs idx True) = st
        \<or> fst (forward rnd st inputs idx True) = append_codebook rnd st"
    by (auto simp: forward_def Let_def split: list.splits sum.splits)
  have c: "fst (forward rnd st inputs idx True) = append_codebook rnd st"
    if h: "snd (forward rnd st inputs idx True) = Inr out" for out
  proof -
    obtain B C H W flat where "shape inputs = [B, C, H, W]"
      "view_rows (embedding_dim st) (map primal (permute_0231 B C H W (els inputs))) = Inr flat"
      using forward_success_shaped [OF h] by blast
    then show ?thesis by (simp add: forward_shaped Let_def)
  qed
  have d: "snd (forward rnd st inputs idx True) = snd (forward rnd (append_codebook rnd st) inputs idx False)"
    by (auto simp: forward_def Let_def append_codebook_fields split: list.splits sum.splits)
  from a b c d show ?thesis by blast
qed

text \<open>A pass without the flag, and a successful pass with the flag on the new index 2.\<close>

theorem forward_store_frame_witness:
  "fst (forward demo_rnd demo_store demo_input 1 False) = demo_store
   \<and> fst (forward demo_rnd demo_store demo_input 2 True) = append_codebook demo_rnd demo_store
   \<and> length (codebooks (fst (forward demo_rnd demo_store demo_input 2 True))) = 3"
proof -
  have "\<exists>out. snd (forward demo_rnd demo_store demo_input 2 True) = Inr out"
    by (simp add: demo_defs fwd_defs Let_def upt_conv_Cons)
  then show ?thesis
    using forward_store_frame [of demo_rnd demo_store demo_input 1]
          forward_store_frame [of demo_rnd demo_store demo_input 2]
    by (auto simp: append_codebook_fields demo_store_def extVQ_init_def)
qed

subsection \<open>Accessible codewords\<close>

lemma accessible_codes_zero_Inr:
  "accessible_codes cbs 0 = Inr codes \<Longrightarrow> cbs \<noteq> [] \<and> codes = cbs ! 0"
  by (auto simp: accessible_codes_def py_index_def py_pos_def split: if_splits)

lemma accessible_codes_pos_Inr:
  assumes "0 < k" "accessible_codes cbs k = Inr codes"
  shows "nat k < length cbs \<and> ncols (cbs ! 0) = ncols (cbs ! nat k) \<and>
         codes = \<lparr>ncols = ncols (cbs ! 0), rows = rows (cbs ! 0) @ rows (cbs ! nat k)\<rparr>"
  using assms
  by (auto simp: accessible_codes_def py_index_def py_pos_def cat0_def split: if_splits sum.splits)

lemma accessible_codes_agree:
  assumes "cbs \<noteq> []" "cbs2 \<noteq> []" "cbs2 ! 0 = cbs ! 0" "0 \<le> idx"
    and "0 < idx \<Longrightarrow> nat idx < length cbs \<and> nat idx < length cbs2 \<and> cbs2 ! nat idx = cbs ! nat idx"
  shows "accessible_codes cbs2 idx = accessible_codes cbs idx"
proof (cases "idx = 0")
  case True
  then show ?thesis using assms(1-3) by (simp add: accessible_codes_def py_index_def py_pos_def)
next
  case False
  then have "0 < idx" using assms(4) by simp
  then show ?thesis
    using assms(1-3) assms(5)
    by (auto simp: accessible_codes_def py_index_def py_pos_def)
qed

text \<open>
  Claim C1. In a forward pass that returns, with \<open>st'\<close> the store at selection time: for
  index 0 the accessible codewords are the weights of codebook 0; for an index \<open>k > 0\<close> they
  are the rows of codebook 0 followed by the rows of codebook \<open>k\<close>. The output is computed
  from these codewords, and no other codebook is read: any store with the same dimension
  and commitment cost that agrees with \<open>st'\<close> on codebook 0 (and on codebook \<open>k\<close>) gives
  the same output.
\<close>

theorem accessible_codewords:
  assumes "forward rnd st inputs idx ext = (st', Inr out)"
  shows "(idx = 0 \<longrightarrow> accessible_codes (codebooks st') idx = Inr (codebooks st' ! 0))
   \<and> (0 < idx \<longrightarrow> nat idx < length (codebooks st') \<and>
         accessible_codes (codebooks st') idx =
           Inr \<lparr>ncols = ncols (codebooks st' ! 0),
                rows = rows (codebooks st' ! 0) @ rows (codebooks st' ! nat idx)\<rparr>)
   \<and> (\<exists>B C H W flat codes.
         shape inputs = [B, C, H, W] \<and>
         view_rows (embedding_dim st) (map primal (permute_0231 B C H W (els inputs))) = Inr flat \<and>
         accessible_codes (codebooks st') idx = Inr codes \<and>
         quantize (embedding_dim st) (commitment_cost st) B H W C
           (permute_0231 B C H W (els inputs)) flat codes = Inr out)
   \<and> (\<forall>st2. 0 \<le> idx \<and> embedding_dim st2 = embedding_dim st \<and>
            commitment_cost st2 = commitment_cost st \<and>
            codebooks st2 \<noteq> [] \<and> codebooks st2 ! 0 = codebooks st' ! 0 \<and>
            (0 < idx \<longrightarrow> nat idx < length (codebooks st2) \<and>
                         codebooks st2 ! nat idx = codebooks st' ! nat idx)
          \<longrightarrow> snd (forward rnd st2 inputs idx False) = Inr out)"
proof -
  from assms have s: "snd (forward rnd st inputs idx ext) = Inr out" by simp
  then obtain B C H W flat where sh: "shape inputs = [B, C, H, W]"
    and fl: "view_rows (embedding_dim st) (map primal (permute_0231 B C H W (els inputs))) = Inr flat"
    using forward_success_shaped by blast
  have st': "st' = (if ext then append_codebook rnd st else st)"
    using assms forward_shaped [OF sh fl, of rnd idx ext] by (simp add: Let_def)
  have dims: "embedding_dim st' = embedding_dim st" "commitment_cost st' = commitment_cost st"
    by (simp_all add: st' append_codebook_fields)
  obtain codes where ac: "accessible_codes (codebooks st') idx = Inr codes"
    and qu: "quantize (embedding_dim st) (commitment_cost st) B H W C
               (permute_0231 B C H W (els inputs)) flat codes = Inr out"
    using assms forward_shaped [OF sh fl, of rnd idx ext] dims
    by (auto simp: Let_def st' split: sum.splits)
  have zero: "accessible_codes (codebooks st') idx = Inr (codebooks st' ! 0)" if "idx = 0"
    using ac that accessible_codes_zero_Inr [of "codebooks st'" codes] by simp
  have pos: "nat idx < length (codebooks st') \<and>
         accessible_codes (codebooks st') idx =
           Inr \<lparr>ncols = ncols (codebooks st' ! 0),
                rows = rows (codebooks st' ! 0) @ rows (codebooks st' ! nat idx)\<rparr>" if "0 < idx"
    using ac accessible_codes_pos_Inr [OF that ac] by simp
  have ne: "codebooks st' \<noteq> []" if "0 \<le> idx"
  proof (cases "idx = 0")
    case True
    then show ?thesis using ac accessible_codes_zero_Inr [of "codebooks st'" codes] by simp
  next
    case False
    then have "0 < idx" using that by simp
    then show ?thesis using pos by auto
  qed
  have frame: "snd (forward rnd st2 inputs idx False) = Inr out"
    if h: "0 \<le> idx \<and> embedding_dim st2 = embedding_dim st \<and>
            commitment_cost st2 = commitment_cost st \<and>
            codebooks st2 \<noteq> [] \<and> codebooks st2 ! 0 = codebooks st' ! 0 \<and>
            (0 < idx \<longrightarrow> nat idx < length (codebooks st2) \<and>
                         codebooks st2 ! nat idx = codebooks st' ! nat idx)" for st2
  proof -
    have "accessible_codes (codebooks st2) idx = accessible_codes (codebooks st') idx"
      using h ne pos by (intro accessible_codes_agree) auto
    then show ?thesis
      using h ac qu fl forward_shaped [of inputs B C H W st2 flat rnd idx False] sh
      by (simp add: Let_def)
  qed
  show ?thesis
    using zero pos sh fl ac qu frame by blast
qed

text \<open>Indices 0 and 1 on a store of two codebooks; a third codebook changes nothing.\<close>

theorem accessible_codewords_witness:
  "accessible_codes (codebooks demo_store) 0 = Inr \<lparr>ncols = 1, rows = [[0]]\<rparr>
   \<and> accessible_codes (codebooks demo_store) 1 = Inr \<lparr>ncols = 1, rows = [[0], [1]]\<rparr>
   \<and> snd (forward demo_rnd demo_store3 demo_input 1 False)
       = snd (forward demo_rnd demo_store demo_input 1 False)"
proof -
  obtain out0 where o0: "forward demo_rnd demo_store demo_input 0 False = (demo_store, Inr out0)"
    by (simp add: demo_defs fwd_defs Let_def upt_conv_Cons)
  obtain out1 where o1: "forward demo_rnd demo_store demo_input 1 False = (demo_store, Inr out1)"
    by (simp add: demo_defs fwd_defs Let_def upt_conv_Cons)
  have c: "codebooks demo_store = [\<lparr>ncols = 1, rows = [[0]]\<rparr>, \<lparr>ncols = 1, rows = [[1]]\<rparr>]"
    by (simp add: demo_defs)
  have c3: "codebooks demo_store3 = codebooks demo_store @ [\<lparr>ncols = 1, rows = [[2]]\<rparr>]"
    "embedding_dim demo_store3 = embedding_dim demo_store"
    "commitment_cost demo_store3 = commitment_cost demo_store"
    by (simp_all add: demo_store3_def append_codebook_def demo_defs)
  show ?thesis
    using accessible_codewords [OF o0] accessible_codewords [OF o1] o1 c3
    by (simp add: c)
qed

subsection \<open>Invalid indices\<close>

text \<open>
  Claim C4, as amended. Let \<open>L\<close> be the length of the store at selection time: the length
  before the call, plus one when the extend flag is set. On features that pass the shape
  checks, a forward pass fails with an invalid-index error when \<open>idx < -L\<close> or
  \<open>L \<le> idx\<close>, and the store it leaves is the store at selection time: unchanged without
  the flag, extended by the appended codebook with it. For \<open>-L \<le> idx < L\<close> no
  invalid-index error occurs; a negative index in that range selects codebook \<open>L + idx\<close>.
\<close>

theorem forward_index_check:
  assumes "shape inputs = [B, C, H, W]"
    and "view_rows (embedding_dim st) (map primal (permute_0231 B C H W (els inputs))) = Inr flat"
    and "st' = (if ext then append_codebook rnd st else st)"
    and "L = int (length (codebooks st'))"
  shows "(idx < - L \<or> L \<le> idx \<longrightarrow> forward rnd st inputs idx ext = (st', Inl InvalidIndex))
   \<and> (- L \<le> idx \<and> idx < L \<longrightarrow>
         fst (forward rnd st inputs idx ext) = st' \<and>
         snd (forward rnd st inputs idx ext) \<noteq> Inl InvalidIndex)
   \<and> (- L \<le> idx \<and> idx < 0 \<longrightarrow>
         accessible_codes (codebooks st') idx =
           cat0 (codebooks st' ! 0) (codebooks st' ! nat (idx + L)))"
proof -
  have f: "forward rnd st inputs idx ext =
      (st', case accessible_codes (codebooks st') idx of
              Inl e \<Rightarrow> Inl e
            | Inr codes \<Rightarrow> quantize (embedding_dim st') (commitment_cost st') B H W C
                 (permute_0231 B C H W (els inputs)) flat codes)"
    unfolding assms(3) using forward_shaped [OF assms(1,2), of rnd idx ext] by (simp add: Let_def)
  have out: "forward rnd st inputs idx ext = (st', Inl InvalidIndex)" if "idx < - L \<or> L \<le> idx"
    using that assms(4) accessible_codes_outside [of idx "codebooks st'"] by (simp add: f)
  have inside: "snd (forward rnd st inputs idx ext) \<noteq> Inl InvalidIndex" if "- L \<le> idx \<and> idx < L"
    using that assms(4) accessible_codes_inside [of "codebooks st'" idx]
      quantize_not_invalid
    by (auto simp: f split: sum.splits)
  have neg: "accessible_codes (codebooks st') idx =
           cat0 (codebooks st' ! 0) (codebooks st' ! nat (idx + L))" if "- L \<le> idx \<and> idx < 0"
  proof -
    have "codebooks st' \<noteq> []" using that assms(4) by auto
    then have "py_index (codebooks st') 0 = Inr (codebooks st' ! 0)"
      using py_index_inside [of 0 "codebooks st'"] by simp
    then show ?thesis
      using that assms(4) by (simp add: accessible_codes_def py_index_negative)
  qed
  show ?thesis using out inside neg f by simp
qed

text \<open>Indices 2, -3, -2 and -1 without the flag and index 3 with it, on two codebooks.\<close>

theorem forward_index_check_witness:
  "forward demo_rnd demo_store demo_input 2 False = (demo_store, Inl InvalidIndex)
   \<and> forward demo_rnd demo_store demo_input (-3) False = (demo_store, Inl InvalidIndex)
   \<and> forward demo_rnd demo_store demo_input 3 True = (demo_store3, Inl InvalidIndex)
   \<and> snd (forward demo_rnd demo_store demo_input (-2) False) \<noteq> Inl InvalidIndex
   \<and> accessible_codes (codebooks demo_store) (-1) = cat0 (codebooks demo_store ! 0) (codebooks demo_store ! 1)"
proof -
  have sh: "shape demo_input = [1, 1, 1, 2]" by (simp add: demo_input_def)
  have fl: "view_rows (embedding_dim demo_store) (map primal (permute_0231 1 1 1 2 (els demo_input)))
              = Inr [[9 / 10], [1 / 5]]"
    by (simp add: demo_defs view_rows_def permute_0231_def tab4_def upt_conv_Cons)
  have l2: "(2::int) = int (length (codebooks demo_store))" by (simp add: demo_defs)
  have l3: "(3::int) = int (length (codebooks demo_store3))"
    by (simp add: demo_store3_def append_codebook_def demo_defs)
  have a: "demo_store = (if False then append_codebook demo_rnd demo_store else demo_store)" by simp
  have b: "demo_store3 = (if True then append_codebook demo_rnd demo_store else demo_store)"
    by (simp add: demo_store3_def)
  show ?thesis
    using forward_index_check [OF sh fl a l2, of 2]
          forward_index_check [OF sh fl a l2, of "-3"]
          forward_index_check [OF sh fl b l3, of 3]
          forward_index_check [OF sh fl a l2, of "-2"]
          forward_index_check [OF sh fl a l2, of "-1"]
    by simp
qed

text \<open>
  Claim C4 as stated fails on a store of two codebooks: index -1 is accepted; index 2,
  equal to the length of the store before the call, is accepted when the extend flag is
  set; and the failing pass with index 3 and the flag set leaves a store of three codebooks.
\<close>

theorem forward_index_counterexample:
  "\<not> isl (snd (forward demo_rnd demo_store demo_input (-1) False))
   \<and> \<not> isl (snd (forward demo_rnd demo_store demo_input 2 True))
   \<and> snd (forward demo_rnd demo_store demo_input 3 True) = Inl InvalidIndex
   \<and> length (codebooks (fst (forward demo_rnd demo_store demo_input 3 True))) = 3
   \<and> length (codebooks demo_store) = 2"
  by (simp add: demo_defs fwd_defs Let_def upt_conv_Cons)


subsection \<open>One-hot encodings\<close>

lemma argmin_from_bound: "bi < i \<Longrightarrow> argmin_from best bi i ds < i + length ds"
proof (induction ds arbitrary: best bi i)
  case Nil
  then show ?case by simp
next
  case (Cons d ds)
  show ?case
  proof (cases "d < best")
    case True
    then show ?thesis using Cons.IH [of i "Suc i" d] by simp
  next
    case False
    then show ?thesis using Cons.IH [of bi "Suc i" best] Cons.prems by simp
  qed
qed

lemma argmin_row_bound: "ds \<noteq> [] \<Longrightarrow> argmin_row ds < length ds"
  using argmin_from_bound [of 0 1] by (cases ds) auto

lemma sum_list_one_hot: "i < M \<Longrightarrow> sum_list ((replicate M (0::real))[i := 1]) = 1"
proof (induction M arbitrary: i)
  case 0
  then show ?case by simp
next
  case (Suc M)
  then show ?case by (cases i) (simp_all add: sum_list_replicate)
qed

lemma sum_list_concat_rows: "sum_list (concat xss) = sum_list (map sum_list (xss :: real list list))"
  by (induction xss) simp_all

lemma one_hot_row:
  assumes "i < M"
  shows "length ((replicate M (0::real))[i := 1]) = M"
    and "(replicate M (0::real))[i := 1] ! i = 1"
    and "\<And>j. j < M \<Longrightarrow> j \<noteq> i \<Longrightarrow> (replicate M (0::real))[i := 1] ! j = 0"
  using assms by simp_all

lemma assign_codes_Inr:
  assumes "assign_codes D flat_input codes = Inr encodings"
  shows "ncols codes = D" and "rows codes \<noteq> []"
    and "encodings = map (\<lambda>x. (replicate (length (rows codes)) 0)
            [argmin_row (map (\<lambda>c. sum_sq x + sum_sq c - 2 * dot x c) (rows codes)) := 1]) flat_input"
  using assms
  by (auto simp: assign_codes_def calc_distances_def argmin_dim1_def scatter_ones_def comp_def
           split: if_splits)

lemma assign_codes_total:
  assumes "ncols codes = D" "rows codes \<noteq> []"
  shows "assign_codes D flat_input codes =
     Inr (map (\<lambda>x. (replicate (length (rows codes)) 0)
            [argmin_row (map (\<lambda>c. sum_sq x + sum_sq c - 2 * dot x c) (rows codes)) := 1]) flat_input)"
  using assms
  by (simp add: assign_codes_def calc_distances_def argmin_dim1_def scatter_ones_def comp_def)

lemma one_hot_rows:
  assumes "rows codes \<noteq> []"
    and "encodings = map (\<lambda>x. (replicate (length (rows codes)) 0)
            [argmin_row (map (\<lambda>c. sum_sq x + sum_sq c - 2 * dot x c) (rows codes)) := 1]) flat_input"
  shows "length encodings = length flat_input
   \<and> (\<forall>r \<in> set encodings. length r = length (rows codes) \<and>
         (\<exists>i < length (rows codes). r ! i = 1 \<and> (\<forall>j < length (rows codes). j \<noteq> i \<longrightarrow> r ! j = 0)))
   \<and> sum_list (concat encodings) = real (length flat_input)"
proof -
  let ?M = "length (rows codes)"
  let ?am = "\<lambda>x. argmin_row (map (\<lambda>c. sum_sq x + sum_sq c - 2 * dot x c) (rows codes))"
  have b: "?am x < ?M" for x
    using argmin_row_bound [of "map (\<lambda>c. sum_sq x + sum_sq c - 2 * dot x c) (rows codes)"] assms(1)
    by simp
  have enc: "encodings = map (\<lambda>x. (replicate ?M 0)[?am x := 1]) flat_input"
    by (rule assms(2))
  have len: "length encodings = length flat_input"
    by (simp add: enc)
  have row: "length r = ?M \<and> (\<exists>i < ?M. r ! i = 1 \<and> (\<forall>j < ?M. j \<noteq> i \<longrightarrow> r ! j = 0))"
    if "r \<in> set encodings" for r
  proof -
    from that obtain x where r: "r = (replicate ?M 0)[?am x := 1]"
      unfolding enc by auto
    show ?thesis
      unfolding r using b [of x] by (intro conjI exI [of _ "?am x"]) simp_all
  qed
  have "sum_list (concat encodings) = sum_list (map sum_list encodings)"
    by (rule sum_list_concat_rows)
  also have "\<dots> = sum_list (map (\<lambda>x. 1) flat_input)"
    unfolding enc by (simp add: comp_def sum_list_one_hot b)
  also have "\<dots> = real (length flat_input)"
    by (simp add: sum_list_triv)
  finally have total: "sum_list (concat encodings) = real (length flat_input)" .
  show ?thesis using len row total by blast
qed

text \<open>
  Claim C5. The assignment step (distances, argmin, one-hot scatter) produces an encoding
  matrix whenever the codes have the features' number of columns and at least one row.
  Whenever it produces one, the matrix has one row per feature row, each row has one entry
  per accessible codeword, exactly one of them 1 and all others 0, and the entries sum to
  the number of feature rows, the batch the step receives.
\<close>

theorem one_hot_encodings:
  "(ncols codes = D \<and> rows codes \<noteq> [] \<longrightarrow> (\<exists>encodings. assign_codes D flat_input codes = Inr encodings))
   \<and> (\<forall>encodings. assign_codes D flat_input codes = Inr encodings \<longrightarrow>
        length encodings = length flat_input
        \<and> (\<forall>r \<in> set encodings. length r = length (rows codes) \<and>
              (\<exists>i < length (rows codes). r ! i = 1 \<and>
                 (\<forall>j < length (rows codes). j \<noteq> i \<longrightarrow> r ! j = 0)))
        \<and> sum_list (concat encodings) = real (length flat_input))"
proof -
  have produced: "\<exists>encodings. assign_codes D flat_input codes = Inr encodings"
    if "ncols codes = D \<and> rows codes \<noteq> []"
    using that by (simp add: assign_codes_total)
  have one_hot: "length encodings = length flat_input
        \<and> (\<forall>r \<in> set encodings. length r = length (rows codes) \<and>
              (\<exists>i < length (rows codes). r ! i = 1 \<and>
                 (\<forall>j < length (rows codes). j \<noteq> i \<longrightarrow> r ! j = 0)))
        \<and> sum_list (concat encodings) = real (length flat_input)"
    if a: "assign_codes D flat_input codes = Inr encodings" for encodings
    using one_hot_rows [OF assign_codes_Inr(2,3) [OF a]] .
  show ?thesis using produced one_hot by blast
qed

text \<open>Two feature rows against two codewords.\<close>

theorem one_hot_encodings_witness:
  "assign_codes 1 [[9 / 10], [1 / 5]] \<lparr>ncols = 1, rows = [[0], [1]]\<rparr> = Inr [[0, 1], [1, 0]]
   \<and> sum_list (concat [[0, 1], [1, 0 :: real]]) = real (length [[9 / 10], [1 / 5 :: real]])"
proof -
  have a: "assign_codes 1 [[9 / 10], [1 / 5]] \<lparr>ncols = 1, rows = [[0], [1]]\<rparr> = Inr [[0, 1], [1, 0]]"
    by (simp add: assign_codes_def calc_distances_def argmin_dim1_def scatter_ones_def
          sum_sq_def dot_def)
  have "sum_list (concat [[0, 1], [1, 0 :: real]]) = real (length [[9 / 10], [1 / 5 :: real]])"
    using one_hot_encodings [of "\<lparr>ncols = 1, rows = [[0], [1]]\<rparr>" 1 "[[9 / 10], [1 / 5]]"] a by blast
  then show ?thesis using a by simp
qed

section \<open>Properties of the k-means initialisation\<close>

lemma permute_0231_batches:
  assumes "list_all (batch_of C H W) ks"
  shows "permute_0231 (sum_list (map (\<lambda>t. hd (shape t)) ks)) C H W (concat (map els ks))
           = channel_last_entries C H W ks"
  using assms
proof (induction ks)
  case Nil
  then show ?case by (simp add: channel_last_entries_def permute_0231_def tab4_def)
next
  case (Cons t ks)
  then have l: "length (els t) = hd (shape t) * C * H * W"
    by (simp add: batch_of_def)
  show ?case
    using Cons permute_0231_append [OF l, of "sum_list (map (\<lambda>t. hd (shape t)) ks)" "concat (map els ks)"]
    by (simp add: channel_last_entries_def)
qed

lemma channel_last_entries_skip:
  "channel_last_entries C H W (filter (\<lambda>t. shape t \<noteq> [0]) ts) = channel_last_entries C H W ts"
proof (induction ts)
  case Nil
  then show ?case by simp
next
  case (Cons t ts)
  have "permute_0231 0 C H W (els t) = []"
    by (simp add: permute_0231_def tab4_def)
  then show ?case using Cons by (auto simp: channel_last_entries_def)
qed

lemma concat_dim0_batches:
  assumes "list_all (\<lambda>t. shape t = [0] \<or> batch_of C H W t) ts"
    and "list_ex (\<lambda>t. shape t \<noteq> [0]) ts"
  shows "\<exists>B feas. concat_dim0 ts = Inr feas \<and> shape feas = [B, C, H, W] \<and>
           permute_0231 B C H W (els feas) = channel_last_entries C H W ts"
proof -
  let ?ks = "filter (\<lambda>t. shape t \<noteq> [0]) ts"
  have ne: "ts \<noteq> []" using assms(2) by auto
  have ks: "list_all (batch_of C H W) ?ks"
    using assms(1) by (auto simp: list_all_iff)
  have "?ks \<noteq> []" using assms(2) by (auto simp: list_ex_iff filter_empty_conv)
  then obtain t rest where tr: "?ks = t # rest" by (cases ?ks) auto
  have sh: "shape s = [hd (shape s), C, H, W]" if "s \<in> set (t # rest)" for s
    using ks that unfolding tr by (auto simp: list_all_iff batch_of_def)
  have t: "shape t \<noteq> []" "tl (shape t) = [C, H, W]"
    using sh [of t] by (metis list.set_intros(1) list.distinct(1), metis list.set_intros(1) list.sel(3))
  have r: "list_all (\<lambda>s. shape s \<noteq> [] \<and> tl (shape s) = tl (shape t)) rest"
    unfolding list_all_iff
  proof
    fix s assume "s \<in> set rest"
    then have "shape s = [hd (shape s), C, H, W]" using sh [of s] by simp
    then show "shape s \<noteq> [] \<and> tl (shape s) = tl (shape t)"
      using t(2) by (metis list.distinct(1) list.sel(3))
  qed
  let ?feas = "\<lparr>shape = sum_list (map (\<lambda>s. hd (shape s)) ?ks) # [C, H, W],
                els = concat (map els ?ks)\<rparr>"
  have c: "concat_dim0 ts = Inr ?feas"
    using ne t r by (simp add: concat_dim0_def tr)
  have "permute_0231 (sum_list (map (\<lambda>s. hd (shape s)) ?ks)) C H W (els ?feas)
          = channel_last_entries C H W ts"
    using permute_0231_batches [OF ks] by (simp add: channel_last_entries_skip)
  then show ?thesis using c by auto
qed

lemma init_codebooks_shaped:
  assumes "concat_dim0 (map (\<lambda>(xtr, ytr). encoder xtr) dsloader) = Inr feas"
    and "shape feas = [B, C, H, W]"
    and "view_rows (uefl_dim u) (permute_0231 B C H W (els feas)) = Inr feas_rows"
  shows "init_codebooks encoder kmeans u dsloader idx =
     (case kmeans (uefl_num_embeddings u) feas_rows of
        Inl e \<Rightarrow> (u, Inl e)
      | Inr centers \<Rightarrow>
          (case py_pos (length (codebooks (discretizer u))) idx of
             Inl e \<Rightarrow> (u, Inl e)
           | Inr p \<Rightarrow> (u\<lparr>discretizer := (discretizer u)\<lparr>codebooks :=
                          (codebooks (discretizer u))[p := centers]\<rparr>\<rparr>, Inr ())))"
  using assms by (simp add: init_codebooks_def)

lemma shape_case_other:
  "\<not> (\<exists>B C H W. s = [B, C, H, W]) \<Longrightarrow>
   (case s of [B, C, H, W] \<Rightarrow> f B C H W | _ \<Rightarrow> g) = g"
  by (auto split: list.splits)

lemma init_codebooks_unchanged_or_done:
  "fst (init_codebooks encoder kmeans u dsloader idx) = u
   \<or> snd (init_codebooks encoder kmeans u dsloader idx) = Inr ()"
proof (cases "concat_dim0 (map (\<lambda>(xtr, ytr). encoder xtr) dsloader)")
  case (Inl e)
  then show ?thesis by (simp add: init_codebooks_def)
next
  case (Inr feas)
  show ?thesis
  proof (cases "\<exists>B C H W. shape feas = [B, C, H, W]")
    case True
    then obtain B C H W where "shape feas = [B, C, H, W]" by blast
    then show ?thesis using Inr by (simp add: init_codebooks_def split: sum.split)
  next
    case False
    then show ?thesis using Inr by (simp add: init_codebooks_def shape_case_other)
  qed
qed

lemma init_codebooks_failure_frame:
  "snd (init_codebooks encoder kmeans u dsloader idx) = Inl e \<Longrightarrow>
   fst (init_codebooks encoder kmeans u dsloader idx) = u"
  using init_codebooks_unchanged_or_done [of encoder kmeans u dsloader idx] by auto


lemma view_rows_widths:
  assumes "view_rows D xs = Inr feas_rows"
  shows "list_all (\<lambda>r. length r = D) feas_rows"
proof -
  have D: "D \<noteq> 0" and R: "feas_rows = map (\<lambda>n. take D (drop (n * D) xs)) [0..<length xs div D]"
    using assms by (auto simp: view_rows_def split: if_splits)
  have "length (take D (drop (n * D) xs)) = D" if "n < length xs div D" for n
  proof -
    have "Suc n * D \<le> length xs div D * D" using that by (intro mult_le_mono1) simp
    also have "\<dots> \<le> length xs" by simp
    finally show ?thesis by simp
  qed
  then show ?thesis unfolding R by (simp add: list_all_iff)
qed

lemma column_means_length: "length (column_means feas_rows) = length (hd feas_rows)"
  by (simp add: column_means_def)

lemma demo_kmeans_contract: "kmeans_contract D demo_kmeans"
  unfolding kmeans_contract_def
proof (intro allI impI conjI)
  fix k :: nat and feas_rows :: "real list list"
  assume "k = 0 \<or> length feas_rows < k"
  then show "isl (demo_kmeans k feas_rows)" by (auto simp: demo_kmeans_def)
next
  fix k :: nat and feas_rows :: "real list list" and centers
  assume w: "list_all (\<lambda>r. length r = D) feas_rows" and c: "demo_kmeans k feas_rows = Inr centers"
  from c have k: "0 < k" "k \<le> length feas_rows"
    and cs: "centers = \<lparr>ncols = length (hd feas_rows),
                rows = take (k - 1) feas_rows @ [column_means (drop (k - 1) feas_rows)]\<rparr>"
    by (auto simp: demo_kmeans_def split: if_splits)
  have ne: "feas_rows \<noteq> []" using k by auto
  then have h: "length (hd feas_rows) = D" using w by (cases feas_rows) simp_all
  have d: "drop (k - 1) feas_rows \<noteq> []" using k by simp
  then have "hd (drop (k - 1) feas_rows) \<in> set feas_rows"
    by (metis hd_in_set in_set_dropD)
  then have hd: "length (hd (drop (k - 1) feas_rows)) = D"
    using w by (simp add: list_all_iff)
  have t: "\<forall>r \<in> set (take (k - 1) feas_rows). length r = D"
    using w by (auto simp: list_all_iff dest: in_set_takeD)
  show "has_shape k D centers"
    using k h hd t by (simp add: cs has_shape_def wf_matrix_def list_all_iff column_means_length)
qed

text \<open>
  Claim C9. Let every batch of the loader have features of shape \<open>b \<times> C \<times> H \<times> W\<close>
  (batches of shape \<open>(0,)\<close> are skipped by the concatenation), let the features of all
  batches, in channel-last layout, flatten into the rows \<open>feas_rows\<close>, and let the
  clustering library behave as relied on. When clustering these rows into
  \<open>num_embeddings\<close> clusters returns centroids, and the target index is an index of the
  store (counted from the end when negative), the call succeeds and the target codebook
  holds exactly these centroids, \<open>num_embeddings\<close> rows of \<open>embedding_dim\<close> columns. When
  the clustering raises, the call raises the same exception and the model is unchanged; it
  does so when there are fewer feature rows than \<open>num_embeddings\<close>. Every failing call
  leaves the model unchanged.
\<close>

theorem init_codebooks_outcome:
  assumes "kmeans_contract (uefl_dim u) kmeans"
    and "list_all (\<lambda>t. shape t = [0] \<or> batch_of C H W t) (map (\<lambda>(xtr, ytr). encoder xtr) dsloader)"
    and "list_ex (\<lambda>t. shape t \<noteq> [0]) (map (\<lambda>(xtr, ytr). encoder xtr) dsloader)"
    and "view_rows (uefl_dim u)
           (channel_last_entries C H W (map (\<lambda>(xtr, ytr). encoder xtr) dsloader)) = Inr feas_rows"
  shows "(\<forall>centers p. kmeans (uefl_num_embeddings u) feas_rows = Inr centers \<and>
                     py_pos (store_size u) idx = Inr p \<longrightarrow>
            init_codebooks encoder kmeans u dsloader idx =
              (u\<lparr>discretizer := (discretizer u)\<lparr>codebooks :=
                   (codebooks (discretizer u))[p := centers]\<rparr>\<rparr>, Inr ())
            \<and> p < store_size u
            \<and> codebooks (discretizer (fst (init_codebooks encoder kmeans u dsloader idx))) ! p = centers
            \<and> has_shape (uefl_num_embeddings u) (uefl_dim u) centers)
   \<and> (\<forall>e. kmeans (uefl_num_embeddings u) feas_rows = Inl e \<longrightarrow>
            init_codebooks encoder kmeans u dsloader idx = (u, Inl e))
   \<and> (length feas_rows < uefl_num_embeddings u \<longrightarrow>
            (\<exists>e. init_codebooks encoder kmeans u dsloader idx = (u, Inl e)))
   \<and> (\<forall>e. snd (init_codebooks encoder kmeans u dsloader idx) = Inl e \<longrightarrow>
            fst (init_codebooks encoder kmeans u dsloader idx) = u)"
proof -
  obtain B feas where c: "concat_dim0 (map (\<lambda>(xtr, ytr). encoder xtr) dsloader) = Inr feas"
    and sh: "shape feas = [B, C, H, W]"
    and pe: "permute_0231 B C H W (els feas)
               = channel_last_entries C H W (map (\<lambda>(xtr, ytr). encoder xtr) dsloader)"
    using concat_dim0_batches [OF assms(2,3)] by blast
  have v: "view_rows (uefl_dim u) (permute_0231 B C H W (els feas)) = Inr feas_rows"
    using assms(4) pe by simp
  note f = init_codebooks_shaped [OF c sh v, of kmeans idx]
  have widths: "list_all (\<lambda>r. length r = uefl_dim u) feas_rows"
    using view_rows_widths [OF assms(4)] .
  have ok: "init_codebooks encoder kmeans u dsloader idx =
              (u\<lparr>discretizer := (discretizer u)\<lparr>codebooks :=
                   (codebooks (discretizer u))[p := centers]\<rparr>\<rparr>, Inr ())
            \<and> p < store_size u
            \<and> codebooks (discretizer (fst (init_codebooks encoder kmeans u dsloader idx))) ! p = centers
            \<and> has_shape (uefl_num_embeddings u) (uefl_dim u) centers"
    if h: "kmeans (uefl_num_embeddings u) feas_rows = Inr centers \<and> py_pos (store_size u) idx = Inr p"
    for centers p
  proof -
    have p: "p < store_size u"
      using h by (auto simp: py_pos_def split: if_splits)
    have s: "has_shape (uefl_num_embeddings u) (uefl_dim u) centers"
      using assms(1) widths h unfolding kmeans_contract_def by blast
    show ?thesis using h p s by (simp add: f store_size_def)
  qed
  have failed: "init_codebooks encoder kmeans u dsloader idx = (u, Inl e)"
    if "kmeans (uefl_num_embeddings u) feas_rows = Inl e" for e
    using that by (simp add: f)
  have few: "\<exists>e. init_codebooks encoder kmeans u dsloader idx = (u, Inl e)"
    if "length feas_rows < uefl_num_embeddings u"
  proof -
    have "isl (kmeans (uefl_num_embeddings u) feas_rows)"
      using assms(1) widths that unfolding kmeans_contract_def by blast
    then obtain e where "kmeans (uefl_num_embeddings u) feas_rows = Inl e"
      by (cases "kmeans (uefl_num_embeddings u) feas_rows") auto
    then show ?thesis using failed by blast
  qed
  show ?thesis
    using ok failed few init_codebooks_failure_frame [of encoder kmeans u dsloader idx]
    by blast
qed

text \<open>
  Two batches of one \<open>2 \<times> 1 \<times> 2\<close> feature map each and a skipped batch between them give
  four rows of two columns: one cluster puts their mean into codebook 1, and five clusters
  fail and leave the store as it was.
\<close>

theorem init_codebooks_outcome_witness:
  "init_codebooks demo_features demo_kmeans demo_uefl2 demo_batches 1 =
     (demo_uefl2\<lparr>discretizer := (discretizer demo_uefl2)\<lparr>codebooks :=
          [\<lparr>ncols = 2, rows = [[0, 0]]\<rparr>, \<lparr>ncols = 2, rows = [[11 / 2, 15 / 2]]\<rparr>]\<rparr>\<rparr>, Inr ())
   \<and> init_codebooks demo_features demo_kmeans demo_uefl5 demo_batches 1 = (demo_uefl5, Inl KMeansFailure)"
proof -
  let ?ts = "map (\<lambda>(xtr, ytr). demo_features xtr) demo_batches"
  have ts: "?ts = [\<lparr>shape = [1, 2, 1, 2], els = [4, 5, 6, 7]\<rparr>, \<lparr>shape = [0], els = []\<rparr>,
                   \<lparr>shape = [1, 2, 1, 2], els = [6, 7, 8, 9]\<rparr>]"
    by (simp add: demo_batches_def demo_features_def)
  have b: "list_all (\<lambda>t. shape t = [0] \<or> batch_of 2 1 2 t) ?ts"
    unfolding ts by (simp add: batch_of_def)
  have x: "list_ex (\<lambda>t. shape t \<noteq> [0]) ?ts"
    unfolding ts by simp
  have e: "channel_last_entries 2 1 2 ?ts = [4, 6, 5, 7, 6, 8, 7, 9]"
    unfolding ts by (simp add: channel_last_entries_def permute_0231_def tab4_def upt_conv_Cons)
  have r: "view_rows 2 [4, 6, 5, 7, 6, 8, 7, 9 :: real] = Inr [[4, 6], [5, 7], [6, 8], [7, 9]]"
    by (simp add: view_rows_def upt_conv_Cons)
  have v: "view_rows (uefl_dim demo_uefl2) (channel_last_entries 2 1 2 ?ts)
             = Inr [[4, 6], [5, 7], [6, 8], [7, 9]]"
    unfolding e using r by (simp add: demo_uefl2_def UEFL_init_def)
  have v5: "view_rows (uefl_dim demo_uefl5) (channel_last_entries 2 1 2 ?ts)
             = Inr [[4, 6], [5, 7], [6, 8], [7, 9]]"
    unfolding e using r by (simp add: demo_uefl5_def UEFL_init_def)
  have k: "demo_kmeans (uefl_num_embeddings demo_uefl2) [[4, 6], [5, 7], [6, 8], [7, 9]]
             = Inr \<lparr>ncols = 2, rows = [[11 / 2, 15 / 2]]\<rparr>"
    by (simp add: demo_kmeans_def column_means_def demo_uefl2_def UEFL_init_def upt_conv_Cons)
  have k5: "demo_kmeans (uefl_num_embeddings demo_uefl5) [[4, 6], [5, 7], [6, 8], [7, 9]]
             = Inl KMeansFailure"
    by (simp add: demo_kmeans_def demo_uefl5_def UEFL_init_def)
  have p: "py_pos (store_size demo_uefl2) 1 = Inr 1"
    by (simp add: py_pos_def store_size_def demo_uefl2_def UEFL_init_def extVQ_init_def)
  have cb: "codebooks (discretizer demo_uefl2)
              = [\<lparr>ncols = 2, rows = [[0, 0]]\<rparr>, \<lparr>ncols = 2, rows = [[1, 1]]\<rparr>]"
    by (simp add: demo_uefl2_def UEFL_init_def extVQ_init_def new_embedding_def demo_rnd_def
          upt_conv_Cons)
  have "init_codebooks demo_features demo_kmeans demo_uefl2 demo_batches 1 =
     (demo_uefl2\<lparr>discretizer := (discretizer demo_uefl2)\<lparr>codebooks :=
          (codebooks (discretizer demo_uefl2))[1 := \<lparr>ncols = 2, rows = [[11 / 2, 15 / 2]]\<rparr>]\<rparr>\<rparr>, Inr ())"
    using init_codebooks_outcome [OF demo_kmeans_contract b x v, of 1] k p by blast
  moreover have "init_codebooks demo_features demo_kmeans demo_uefl5 demo_batches 1
                   = (demo_uefl5, Inl KMeansFailure)"
    using init_codebooks_outcome [OF demo_kmeans_contract b x v5, of 1] k5 by blast
  ultimately show ?thesis by (simp add: cb)
qed

section \<open>Well-formed stores\<close>

text \<open>
  The store built by the constructor holds codebooks of shape
  \<open>num_embeddings \<times> embedding_dim\<close>, and the append of the forward pass keeps it so. On
  such a store with at least one codeword per codebook, a forward pass on features that
  pass the shape checks returns for every index from 0 up to the last codebook at
  selection time.
\<close>

lemma append_codebook_shapes:
  "list_all (has_shape (num_embeddings st) (embedding_dim st)) (codebooks st) \<Longrightarrow>
   list_all (has_shape (num_embeddings st) (embedding_dim st)) (codebooks (append_codebook rnd st))"
  by (simp add: append_codebook_def has_shape_new_embedding)

lemma accessible_codes_shaped:
  assumes "list_all (has_shape M D) cbs" "0 \<le> idx" "idx < int (length cbs)"
  shows "\<exists>codes. accessible_codes cbs idx = Inr codes \<and> ncols codes = D \<and>
           length (rows codes) = (if idx = 0 then M else M + M)"
proof -
  have ne: "cbs \<noteq> []" using assms(2,3) by auto
  have sh: "has_shape M D (cbs ! i)" if "i < length cbs" for i
    using assms(1) that by (simp add: list_all_length)
  have z: "py_index cbs 0 = Inr (cbs ! 0)"
    using ne py_index_inside [of 0 cbs] by simp
  show ?thesis
  proof (cases "idx = 0")
    case True
    then show ?thesis using z sh [of 0] ne by (simp add: accessible_codes_def has_shape_def)
  next
    case False
    then have k: "py_index cbs idx = Inr (cbs ! nat idx)"
      using assms(2,3) by (simp add: py_index_inside)
    have "nat idx < length cbs" using assms(2,3) by simp
    then show ?thesis
      using False z k sh [of 0] sh [of "nat idx"] ne
      by (simp add: accessible_codes_def cat0_def has_shape_def)
  qed
qed

lemma quantize_returns:
  assumes "ncols codes = D" "rows codes \<noteq> []"
  shows "\<exists>out. quantize D cc B H W C x flat codes = Inr out"
  using assign_codes_total [OF assms, of flat] by (simp add: quantize_def Let_def)

lemma forward_returns:
  assumes "shape inputs = [B, C, H, W]"
    and "view_rows (embedding_dim st) (map primal (permute_0231 B C H W (els inputs))) = Inr flat"
    and "list_all (has_shape (num_embeddings st) (embedding_dim st)) (codebooks st)"
    and "0 < num_embeddings st"
    and "0 \<le> idx"
    and "idx < int (length (codebooks st)) + (if ext then 1 else 0)"
  shows "\<exists>out. snd (forward rnd st inputs idx ext) = Inr out"
proof -
  define st' where "st' = (if ext then append_codebook rnd st else st)"
  have dims: "embedding_dim st' = embedding_dim st" "num_embeddings st' = num_embeddings st"
    by (simp_all add: st'_def append_codebook_fields)
  have shapes: "list_all (has_shape (num_embeddings st) (embedding_dim st)) (codebooks st')"
    using assms(3) by (simp add: st'_def append_codebook_shapes)
  have "idx < int (length (codebooks st'))"
    using assms(6) by (cases ext) (simp_all add: st'_def append_codebook_fields)
  then obtain codes where ac: "accessible_codes (codebooks st') idx = Inr codes"
    and nc: "ncols codes = embedding_dim st"
    and nr: "length (rows codes) = (if idx = 0 then num_embeddings st else num_embeddings st + num_embeddings st)"
    using accessible_codes_shaped [OF shapes assms(5)] by blast
  have ne: "rows codes \<noteq> []" using nr assms(4) by (auto split: if_splits)
  have nc': "ncols codes = embedding_dim st'" using nc dims by simp
  obtain out where "quantize (embedding_dim st') (commitment_cost st') B H W C
      (permute_0231 B C H W (els inputs)) flat codes = Inr out"
    using quantize_returns [OF nc' ne] by blast
  then show ?thesis
    using forward_shaped [OF assms(1,2), of rnd idx ext] ac by (simp add: Let_def st'_def)
qed

lemma extVQ_init_shapes:
  "list_all (has_shape M D) (codebooks (extVQ_init rnd M D cc))"
  "num_embeddings (extVQ_init rnd M D cc) = M" "embedding_dim (extVQ_init rnd M D cc) = D"
  by (simp_all add: extVQ_init_def has_shape_new_embedding)

lemma forward_keeps_shapes:
  assumes "list_all (has_shape (num_embeddings st) (embedding_dim st)) (codebooks st)"
  shows "list_all (has_shape (num_embeddings st) (embedding_dim st))
           (codebooks (fst (forward rnd st inputs idx ext)))"
proof -
  have "fst (forward rnd st inputs idx ext) = st
      \<or> fst (forward rnd st inputs idx ext) = append_codebook rnd st"
    by (auto simp: forward_def Let_def split: list.splits sum.splits)
  then show ?thesis using assms append_codebook_shapes [OF assms, of rnd] by auto
qed

end
